theory Spec2Isabelle
  imports Main "HOL-Library.Word"
begin

section \<open>Data model of \<^verbatim>\<open>scripts/decompile.py\<close>\<close>

text \<open>
  The script reads a compiled script archive into one Python \<^verbatim>\<open>bytes\<close> object
  (\<^verbatim>\<open>raw_contents = in_file.read()\<close>). A byte is an 8-bit word; the integers that
  \<^verbatim>\<open>struct.unpack\<close> returns are Python integers, unbounded and here never negative, so
  they are natural numbers and \<^verbatim>\<open>start + length\<close> does not wrap.
\<close>

type_synonym byte = "8 word"
type_synonym bytes = "byte list"

text \<open>
  The format string \<^verbatim>\<open>"III"\<close> has no byte-order prefix, so \<^verbatim>\<open>struct\<close> uses the byte
  order of the machine the script runs on (\<^verbatim>\<open>sys.byteorder\<close>). That order is a parameter
  of the model.
\<close>

datatype byteorder = LittleEndian | BigEndian

text \<open>
  The exceptions that leave \<^verbatim>\<open>read_ast_from_file\<close>:
  \<^item> \<open>StructError\<close>: \<^verbatim>\<open>struct.error\<close>, raised by \<^verbatim>\<open>struct.unpack\<close> on a buffer that is not
    12 bytes long (the specification calls this failure \<^verbatim>\<open>TruncatedError\<close>);
  \<^item> \<open>ValueError\<close>: \<^verbatim>\<open>ValueError("Unable to find data slot in RPYC file")\<close> (the
    specification's \<^verbatim>\<open>FormatError\<close>);
  \<^item> \<open>ZlibError\<close>: \<^verbatim>\<open>zlib.error\<close> (the specification's \<^verbatim>\<open>DecompressionError\<close>);
  \<^item> \<open>UnsupportedTypeError\<close> and \<open>MalformedStreamError\<close>: the two failures of the
    deserializer.
\<close>

datatype error =
    StructError
  | ValueError
  | ZlibError
  | UnsupportedTypeError
  | MalformedStreamError

subsection \<open>Byte strings\<close>

text \<open>
  Python's \<^verbatim>\<open>b[i:j]\<close> for indices that are not negative: it never raises, and it is cut
  at the end of \<^verbatim>\<open>b\<close>.
\<close>

definition byte_slice :: "bytes \<Rightarrow> nat \<Rightarrow> nat \<Rightarrow> bytes" where
  "byte_slice b i j = take (j - i) (drop i b)"

definition startswith :: "bytes \<Rightarrow> bytes \<Rightarrow> bool" where
  "startswith b prefix = (take (length prefix) b = prefix)"

text \<open>The marker \<^verbatim>\<open>b"RENPY RPC2"\<close>, as its ten ASCII codes.\<close>

definition magic :: bytes where
  "magic = [0x52, 0x45, 0x4E, 0x50, 0x59, 0x20, 0x52, 0x50, 0x43, 0x32]"

subsection \<open>\<^verbatim>\<open>struct.unpack("III", buf)\<close>\<close>

text \<open>The unsigned integer that a byte string holds, least significant byte first.\<close>

fun uint_le :: "bytes \<Rightarrow> nat" where
  "uint_le [] = 0"
| "uint_le (b # bs) = unat b + 256 * uint_le bs"

definition unpack_uint :: "byteorder \<Rightarrow> bytes \<Rightarrow> nat" where
  "unpack_uint bo bs = (case bo of LittleEndian \<Rightarrow> uint_le bs | BigEndian \<Rightarrow> uint_le (rev bs))"

text \<open>
  Three native unsigned ints of four bytes each, with no padding between them:
  \<^verbatim>\<open>struct.calcsize("III") = 12\<close>. A buffer of any other length raises \<^verbatim>\<open>struct.error\<close>.
\<close>

definition struct_unpack_III :: "byteorder \<Rightarrow> bytes \<Rightarrow> error + (nat \<times> nat \<times> nat)" where
  "struct_unpack_III bo buf =
     (if length buf \<noteq> 12 then Inl StructError
      else Inr (unpack_uint bo (byte_slice buf 0 4),
                unpack_uint bo (byte_slice buf 4 8),
                unpack_uint bo (byte_slice buf 8 12)))"

subsection \<open>The index scan (lines 38 to 47)\<close>

text \<open>
  \<^verbatim>\<open>
  for expected_slot in range(1, 0xFFFFFFFF):
      slot, start, length = struct.unpack("III", raw_contents[position : position + 12])
      if slot == 0:
          break
      position += 12
      chunks[slot] = raw_contents[start : start + length]
  \<close>
  The loop variable, the position and the dictionary are the state. The dictionary is a
  map from slot numbers to byte strings (\<open>len\<close> is the source's \<^verbatim>\<open>length\<close>). When the
  range is used up the loop ends as it does after \<^verbatim>\<open>break\<close>.
\<close>

function scan :: "byteorder \<Rightarrow> bytes \<Rightarrow> nat \<Rightarrow> nat \<Rightarrow> (nat \<rightharpoonup> bytes) \<Rightarrow> error + (nat \<rightharpoonup> bytes)" where
  "scan bo raw_contents expected_slot position chunks =
     (if expected_slot < 0xFFFFFFFF then
        (case struct_unpack_III bo (byte_slice raw_contents position (position + 12)) of
           Inl e \<Rightarrow> Inl e
         | Inr (slot, start, len) \<Rightarrow>
             if slot = 0 then Inr chunks
             else scan bo raw_contents (expected_slot + 1) (position + 12)
                    (chunks(slot \<mapsto> byte_slice raw_contents start (start + len))))
      else Inr chunks)"
  by pat_completeness auto
termination
  by (relation "measure (\<lambda>(bo, raw_contents, expected_slot, position, chunks). 0xFFFFFFFF - expected_slot)") auto

declare scan.simps [simp del]

subsection \<open>The archive reader (lines 30 to 52)\<close>

text \<open>
  The part of \<^verbatim>\<open>read_ast_from_file\<close> that computes \<^verbatim>\<open>contents\<close> before decompression;
  the specification calls it \<^verbatim>\<open>read_payload\<close>.
\<close>

definition read_payload :: "byteorder \<Rightarrow> bytes \<Rightarrow> error + bytes" where
  "read_payload bo raw_contents =
     (if \<not> startswith raw_contents magic then Inr raw_contents
      else
        (case scan bo raw_contents 1 10 Map.empty of
           Inl e \<Rightarrow> Inl e
         | Inr chunks \<Rightarrow>
             (case chunks 1 of
                None \<Rightarrow> Inl ValueError
              | Some contents \<Rightarrow> Inr contents)))"

subsection \<open>\<^verbatim>\<open>read_ast_from_file\<close> (lines 26 to 56)\<close>

text \<open>
  \<^verbatim>\<open>zlib.decompress\<close> and \<^verbatim>\<open>pickle_safe_loads\<close> are imported, the first from the Python
  library and the second from the vendored decompiler; both are parameters.
  \<open>loads\<close> stands for \<^verbatim>\<open>pickle_safe_loads\<close> together with the unpacking of its result
  into two values on line 55; the function returns the second one.
\<close>

definition read_ast_from_file ::
  "byteorder \<Rightarrow> (bytes \<Rightarrow> error + bytes) \<Rightarrow> (bytes \<Rightarrow> error + ('m \<times> 's)) \<Rightarrow> bytes \<Rightarrow> error + 's" where
  "read_ast_from_file bo decompress loads raw_contents =
     (case read_payload bo raw_contents of
        Inl e \<Rightarrow> Inl e
      | Inr contents \<Rightarrow>
          (case decompress contents of
             Inl e \<Rightarrow> Inl e
           | Inr stream \<Rightarrow>
               (case loads stream of
                  Inl e \<Rightarrow> Inl e
                | Inr (_, stmts) \<Rightarrow> Inr stmts)))"

section \<open>Describing archives\<close>

text \<open>
  \<^verbatim>\<open>struct.pack("III", slot, start, length)\<close>, the inverse of the unpacking above: it is
  what writes an index record, and the theorems use it to say which records an archive
  holds. Each field must be below \<open>2 ^ 32\<close> to be packed.
\<close>

fun uint_bytes_le :: "nat \<Rightarrow> nat \<Rightarrow> bytes" where
  "uint_bytes_le 0 n = []"
| "uint_bytes_le (Suc k) n = of_nat (n mod 256) # uint_bytes_le k (n div 256)"

definition pack_uint :: "byteorder \<Rightarrow> nat \<Rightarrow> bytes" where
  "pack_uint bo n =
     (case bo of LittleEndian \<Rightarrow> uint_bytes_le 4 n | BigEndian \<Rightarrow> rev (uint_bytes_le 4 n))"

fun struct_pack_III :: "byteorder \<Rightarrow> nat \<times> nat \<times> nat \<Rightarrow> bytes" where
  "struct_pack_III bo (slot, start, len) = pack_uint bo slot @ pack_uint bo start @ pack_uint bo len"

fun record_ok :: "nat \<times> nat \<times> nat \<Rightarrow> bool" where
  "record_ok (slot, start, len) = (slot < 2 ^ 32 \<and> start < 2 ^ 32 \<and> len < 2 ^ 32)"

text \<open>The index of an archive: its records one after the other.\<close>

definition index_bytes :: "byteorder \<Rightarrow> (nat \<times> nat \<times> nat) list \<Rightarrow> bytes" where
  "index_bytes bo rs = concat (map (struct_pack_III bo) rs)"

text \<open>What line 47 does to the dictionary for one record.\<close>

fun store :: "bytes \<Rightarrow> nat \<times> nat \<times> nat \<Rightarrow> (nat \<rightharpoonup> bytes) \<Rightarrow> (nat \<rightharpoonup> bytes)" where
  "store raw_contents (slot, start, len) chunks =
     chunks(slot \<mapsto> byte_slice raw_contents start (start + len))"

text \<open>
  The number of times the loop body is entered, that is, the number of calls of
  \<^verbatim>\<open>struct.unpack\<close>: the same control flow as \<open>scan\<close>, which the dictionary does not
  influence.
\<close>

function scan_steps :: "byteorder \<Rightarrow> bytes \<Rightarrow> nat \<Rightarrow> nat \<Rightarrow> nat" where
  "scan_steps bo raw_contents expected_slot position =
     (if expected_slot < 0xFFFFFFFF then
        (case struct_unpack_III bo (byte_slice raw_contents position (position + 12)) of
           Inl e \<Rightarrow> 1
         | Inr (slot, start, len) \<Rightarrow>
             if slot = 0 then 1
             else 1 + scan_steps bo raw_contents (expected_slot + 1) (position + 12))
      else 0)"
  by pat_completeness auto
termination
  by (relation "measure (\<lambda>(bo, raw_contents, expected_slot, position). 0xFFFFFFFF - expected_slot)") auto

declare scan_steps.simps [simp del]

text \<open>
  The slot field of the record that starts at a position, and the positions at which the
  scan reads a record when none of them ends it: \<open>10, 22, 34, \<dots>\<close>
\<close>

definition slot_at :: "byteorder \<Rightarrow> bytes \<Rightarrow> nat \<Rightarrow> nat" where
  "slot_at bo raw_contents position = unpack_uint bo (byte_slice raw_contents position (position + 4))"

definition no_sentinel :: "byteorder \<Rightarrow> bytes \<Rightarrow> bool" where
  "no_sentinel bo raw_contents =
     (\<forall>k. 10 + 12 * k + 12 \<le> length raw_contents \<longrightarrow> slot_at bo raw_contents (10 + 12 * k) \<noteq> 0)"

text \<open>
  The specification's reading of a record: three unsigned 32-bit integers, each with its
  least significant byte first.
\<close>

fun spec_le32 :: "bytes \<Rightarrow> nat" where
  "spec_le32 [b0, b1, b2, b3] = unat b0 + 2 ^ 8 * unat b1 + 2 ^ 16 * unat b2 + 2 ^ 24 * unat b3"
| "spec_le32 _ = 0"

definition spec_record :: "bytes \<Rightarrow> nat \<times> nat \<times> nat" where
  "spec_record buf = (spec_le32 (take 4 buf), spec_le32 (take 4 (drop 4 buf)), spec_le32 (take 4 (drop 8 buf)))"

section \<open>Decompression\<close>

text \<open>
  \<^verbatim>\<open>zlib.decompress(data)\<close> is the Python library's, not this repository's. What the
  theorems need of it is stated as a hypothesis on the parameter \<open>decompress\<close>. The
  examples use the part of the zlib format (RFC 1950, RFC 1951) written out here: the
  two-byte header, stored blocks and the Adler-32 trailer. A block that is Huffman-coded
  is left to the parameter \<open>huffman\<close>, which receives the input from that block on and the
  output so far.
\<close>

definition zlib_header_ok :: "bytes \<Rightarrow> bool" where
  "zlib_header_ok data =
     (case data of
        cmf # flg # _ \<Rightarrow>
          unat cmf mod 16 = 8 \<and> unat cmf div 16 \<le> 7 \<and> (256 * unat cmf + unat flg) mod 31 = 0
          \<and> (unat flg div 32) mod 2 = 0
      | _ \<Rightarrow> False)"

definition adler32 :: "bytes \<Rightarrow> nat" where
  "adler32 data =
     (case fold (\<lambda>b (a, s). let a' = (a + unat b) mod 65521 in (a', (s + a') mod 65521)) data (1, 0) of
        (a, s) \<Rightarrow> s * 65536 + a)"

function inflate_blocks ::
  "(bytes \<Rightarrow> bytes \<Rightarrow> error + bytes \<times> bytes) \<Rightarrow> bytes \<Rightarrow> bytes \<Rightarrow> error + bytes \<times> bytes" where
  "inflate_blocks huffman data out =
     (case data of
        [] \<Rightarrow> Inl ZlibError
      | hdr # rest \<Rightarrow>
          let btype = (unat hdr div 2) mod 4 in
          if btype = 3 then Inl ZlibError
          else if btype \<noteq> 0 then huffman data out
          else if length rest < 4 then Inl ZlibError
          else
            let len = uint_le (take 2 rest); nlen = uint_le (take 2 (drop 2 rest)) in
            if len + nlen \<noteq> 65535 \<or> length rest < 4 + len then Inl ZlibError
            else if unat hdr mod 2 = 1 then Inr (out @ take len (drop 4 rest), drop (4 + len) rest)
            else inflate_blocks huffman (drop (4 + len) rest) (out @ take len (drop 4 rest)))"
  by pat_completeness auto
termination
  by (relation "measure (\<lambda>(huffman, data, out). length data)") auto

declare inflate_blocks.simps [simp del]

definition zlib_decompress ::
  "(bytes \<Rightarrow> bytes \<Rightarrow> error + bytes \<times> bytes) \<Rightarrow> bytes \<Rightarrow> error + bytes" where
  "zlib_decompress huffman data =
     (if \<not> zlib_header_ok data then Inl ZlibError
      else
        (case inflate_blocks huffman (drop 2 data) [] of
           Inl e \<Rightarrow> Inl e
         | Inr (out, trailer) \<Rightarrow>
             if length trailer < 4 \<or> uint_le (rev (take 4 trailer)) \<noteq> adler32 out then Inl ZlibError
             else Inr out))"

text \<open>
  \<^verbatim>\<open>zlib.compress(data, 0)\<close> for at most 65535 bytes: the header \<^verbatim>\<open>78 01\<close>, one final
  stored block and the checksum.
\<close>

definition zlib_compress_stored :: "bytes \<Rightarrow> bytes" where
  "zlib_compress_stored data =
     [0x78, 0x01, 0x01] @ uint_bytes_le 2 (length data) @ uint_bytes_le 2 (65535 - length data)
       @ data @ rev (uint_bytes_le 4 (adler32 data))"

text \<open>The decoder of Huffman-coded blocks for streams that have none.\<close>

definition no_huffman :: "bytes \<Rightarrow> bytes \<Rightarrow> error + bytes \<times> bytes" where
  "no_huffman data out = Inl ZlibError"

section \<open>The deserializer\<close>

text \<open>
  Modelled from the spec: \<^verbatim>\<open>pickle_safe_loads\<close> is imported from the vendored decompiler
  (\<^verbatim>\<open>decompiler.renpycompat\<close>), which is not among the sources; the script only calls
  it. The definitions of this section follow section 4.3 of the specification, the Safe
  Graph Deserializer: an operand stack, a growable list of memo slots, the opcode
  families it lists, and the allow-list that maps a type name to the number of positional
  fields of its constructor. The allow-list itself is a parameter.
\<close>

datatype scalar = SNone | SBool bool | SInt int | SStr string

datatype pvalue =
    VScalar scalar
  | VSeq "pvalue list"
  | VMap "(pvalue \<times> pvalue) list"
  | VObj string "pvalue list"

datatype opcode =
    OpPush scalar
  | OpBuildSeq nat
  | OpBuildMap nat
  | OpConstruct
  | OpMemoPut nat
  | OpMemoGet nat
  | OpStop

type_synonym allow_list = "string \<rightharpoonup> nat"
type_synonym dstate = "pvalue list \<times> pvalue list"

fun pairs :: "'a list \<Rightarrow> ('a \<times> 'a) list" where
  "pairs (k # v # xs) = (k, v) # pairs xs"
| "pairs _ = []"

text \<open>
  Modelled from the spec: the opcode families of section 4.3, for the deserializer that
  is not among the sources. One opcode acts on the state (stack, memo); the top of the
  stack is the head of the list.
  Construction pops the field values and the type identifier, looks the identifier up in
  the allow-list, and builds the object when the recipe's number of fields fits. Stack
  underflow and a memo index out of range are malformed streams.
\<close>

fun step :: "allow_list \<Rightarrow> opcode \<Rightarrow> dstate \<Rightarrow> error + dstate" where
  "step allow (OpPush c) (stack, memo) = Inr (VScalar c # stack, memo)"
| "step allow (OpBuildSeq n) (stack, memo) =
     (if length stack < n then Inl MalformedStreamError
      else Inr (VSeq (rev (take n stack)) # drop n stack, memo))"
| "step allow (OpBuildMap n) (stack, memo) =
     (if length stack < 2 * n then Inl MalformedStreamError
      else Inr (VMap (pairs (rev (take (2 * n) stack))) # drop (2 * n) stack, memo))"
| "step allow OpConstruct (fields # VScalar (SStr type_id) # stack, memo) =
     (case allow type_id of
        None \<Rightarrow> Inl UnsupportedTypeError
      | Some arity \<Rightarrow>
          (case fields of
             VSeq vs \<Rightarrow>
               if length vs = arity then Inr (VObj type_id vs # stack, memo)
               else Inl MalformedStreamError
           | _ \<Rightarrow> Inl MalformedStreamError))"
| "step allow OpConstruct (stack, memo) = Inl MalformedStreamError"
| "step allow (OpMemoPut i) (stack, memo) =
     (case stack of
        [] \<Rightarrow> Inl MalformedStreamError
      | v # _ \<Rightarrow>
          if i < length memo then Inr (stack, memo[i := v])
          else if i = length memo then Inr (stack, memo @ [v])
          else Inl MalformedStreamError)"
| "step allow (OpMemoGet i) (stack, memo) =
     (if i < length memo then Inr (memo ! i # stack, memo) else Inl MalformedStreamError)"
| "step allow OpStop (stack, memo) = Inr (stack, memo)"

text \<open>
  Modelled from the spec: the deserializer's loop, which is not among the sources. It
  runs the opcodes in order, up to the end-of-stream mark, which returns the top of the
  stack.
  A stream that ends without the mark is malformed.
\<close>

fun exec :: "allow_list \<Rightarrow> opcode list \<Rightarrow> dstate \<Rightarrow> error + pvalue" where
  "exec allow [] st = Inl MalformedStreamError"
| "exec allow (OpStop # ops) (stack, memo) =
     (case stack of [] \<Rightarrow> Inl MalformedStreamError | v # _ \<Rightarrow> Inr v)"
| "exec allow (opc # ops) st =
     (case step allow opc st of Inl e \<Rightarrow> Inl e | Inr st' \<Rightarrow> exec allow ops st')"

text \<open>
  Modelled from the spec: the same loop of the absent deserializer, stopped after a run of
  opcodes none of which is the end-of-stream mark; it gives the state reached.
\<close>

fun steps :: "allow_list \<Rightarrow> opcode list \<Rightarrow> dstate \<Rightarrow> error + dstate" where
  "steps allow [] st = Inr st"
| "steps allow (opc # ops) st =
     (case step allow opc st of Inl e \<Rightarrow> Inl e | Inr st' \<Rightarrow> steps allow ops st')"

text \<open>
  Modelled from the spec: the contract \<^verbatim>\<open>deserialize(stream) -> (metadata, root_object)\<close>
  of the absent deserializer. The root of the graph is the fixed-shape record (metadata,
  statement sequence); the deserializer returns its two components.
\<close>

definition deserialize :: "allow_list \<Rightarrow> opcode list \<Rightarrow> error + pvalue \<times> pvalue" where
  "deserialize allow ops =
     (case exec allow ops ([], []) of
        Inl e \<Rightarrow> Inl e
      | Inr (VSeq [metadata, root_object]) \<Rightarrow> Inr (metadata, root_object)
      | Inr _ \<Rightarrow> Inl MalformedStreamError)"

text \<open>
  Modelled from the spec: \<^verbatim>\<open>pickle_safe_loads\<close> itself, absent from the sources. The
  wire format is a pickle-protocol stream (section 6 of the specification); the
  specification leaves its layout to that protocol, so the decoding of the bytes into
  opcodes is the parameter \<open>decode\<close>, with \<open>None\<close> for an unknown opcode or a truncated
  operand.
\<close>

definition pickle_safe_loads ::
  "allow_list \<Rightarrow> (bytes \<Rightarrow> opcode list option) \<Rightarrow> bytes \<Rightarrow> error + pvalue \<times> pvalue" where
  "pickle_safe_loads allow decode stream =
     (case decode stream of
        None \<Rightarrow> Inl MalformedStreamError
      | Some ops \<Rightarrow> deserialize allow ops)"

text \<open>The type names of the objects that a value contains.\<close>

fun types_of :: "pvalue \<Rightarrow> string set" where
  "types_of (VScalar c) = {}"
| "types_of (VSeq vs) = (\<Union>v \<in> set vs. types_of v)"
| "types_of (VMap kvs) = (\<Union>(k, v) \<in> set kvs. types_of k \<union> types_of v)"
| "types_of (VObj type_id vs) = insert type_id (\<Union>v \<in> set vs. types_of v)"

text \<open>
  Modelled from the spec: the wire format of the absent deserializer, which section 6
  names as a pickle-protocol stream. This decoder, used in the examples, reads the
  opcodes of pickle protocol 2 that the opcode families above cover. \<^verbatim>\<open>GLOBAL\<close> carries a module name and a type name, each ended by a
  newline, and pushes the module-qualified type name; \<^verbatim>\<open>REDUCE\<close> and \<^verbatim>\<open>NEWOBJ\<close>
  construct an object from the type identifier and the sequence of field values above
  it. The others are \<^verbatim>\<open>PROTO\<close>, \<^verbatim>\<open>NONE\<close>, \<^verbatim>\<open>NEWTRUE\<close>, \<^verbatim>\<open>NEWFALSE\<close>,
  \<^verbatim>\<open>BININT1\<close>, \<^verbatim>\<open>EMPTY_LIST\<close>, \<^verbatim>\<open>EMPTY_TUPLE\<close>, \<^verbatim>\<open>EMPTY_DICT\<close>, \<^verbatim>\<open>TUPLE1\<close> to
  \<^verbatim>\<open>TUPLE3\<close>, \<^verbatim>\<open>BINPUT\<close>, \<^verbatim>\<open>BINGET\<close> and \<^verbatim>\<open>STOP\<close>. Every other byte is an
  unknown opcode, and an opcode whose operand is cut short is a truncated operand.
\<close>

fun split_line :: "bytes \<Rightarrow> (bytes \<times> bytes) option" where
  "split_line [] = None"
| "split_line (b # bs) =
     (if b = 0x0A then Some ([], bs)
      else (case split_line bs of None \<Rightarrow> None | Some (line, rest) \<Rightarrow> Some (b # line, rest)))"

definition ascii :: "bytes \<Rightarrow> string" where
  "ascii bs = map (\<lambda>b. char_of (unat b)) bs"

function pickle_decode :: "bytes \<Rightarrow> opcode list option" where
  "pickle_decode [] = Some []"
| "pickle_decode (b # bs) =
     (if b = 0x2E then Some [OpStop]
      else if b = 0x4E then map_option ((#) (OpPush SNone)) (pickle_decode bs)
      else if b = 0x88 then map_option ((#) (OpPush (SBool True))) (pickle_decode bs)
      else if b = 0x89 then map_option ((#) (OpPush (SBool False))) (pickle_decode bs)
      else if b = 0x5D \<or> b = 0x29 then map_option ((#) (OpBuildSeq 0)) (pickle_decode bs)
      else if b = 0x7D then map_option ((#) (OpBuildMap 0)) (pickle_decode bs)
      else if b = 0x85 then map_option ((#) (OpBuildSeq 1)) (pickle_decode bs)
      else if b = 0x86 then map_option ((#) (OpBuildSeq 2)) (pickle_decode bs)
      else if b = 0x87 then map_option ((#) (OpBuildSeq 3)) (pickle_decode bs)
      else if b = 0x52 \<or> b = 0x81 then map_option ((#) OpConstruct) (pickle_decode bs)
      else if b = 0x63 then
        (case split_line bs of
           None \<Rightarrow> None
         | Some (module_name, rest) \<Rightarrow>
             (case split_line rest of
                None \<Rightarrow> None
              | Some (type_name, rest') \<Rightarrow>
                  map_option ((#) (OpPush (SStr (ascii module_name @ ''.'' @ ascii type_name))))
                    (pickle_decode rest')))
      else if b = 0x80 \<or> b = 0x4B \<or> b = 0x71 \<or> b = 0x68 then
        (case bs of
           [] \<Rightarrow> None
         | a # bs' \<Rightarrow>
             if b = 0x80 then pickle_decode bs'
             else if b = 0x4B then map_option ((#) (OpPush (SInt (uint a)))) (pickle_decode bs')
             else if b = 0x71 then map_option ((#) (OpMemoPut (unat a))) (pickle_decode bs')
             else map_option ((#) (OpMemoGet (unat a))) (pickle_decode bs'))
      else None)"
  by pat_completeness auto
termination
proof -
  have shorter: "length rest < length bs" if "split_line bs = Some (line, rest)"
    for bs line rest
    using that
    by (induction bs arbitrary: line rest) (auto split: if_splits option.splits)
  show ?thesis
    by (relation "measure length") (auto dest!: shorter)
qed

text \<open>
  The stream that pickle protocol 2 writes for the pair \<^verbatim>\<open>(None, [])\<close>:
  \<^verbatim>\<open>PROTO 2, NONE, EMPTY_LIST, BINPUT 0, TUPLE2, BINPUT 1, STOP\<close>.
\<close>

definition example_stream :: bytes where
  "example_stream = [0x80, 0x02, 0x4E, 0x5D, 0x71, 0x00, 0x86, 0x71, 0x01, 0x2E]"

text \<open>An allow-list with two entries, for the examples.\<close>

definition example_allow :: allow_list where
  "example_allow = [''renpy.ast.Say'' \<mapsto> 2, ''renpy.ast.Return'' \<mapsto> 0]"

text \<open>
  A stream that asks for an object of the type \<^verbatim>\<open>os.system\<close>, which is not in that
  allow-list, with no fields, inside an otherwise well-formed pair:
  \<^verbatim>\<open>PROTO 2, NONE, GLOBAL os system, EMPTY_TUPLE, REDUCE, TUPLE2, STOP\<close>.
\<close>

definition hostile_stream :: bytes where
  "hostile_stream =
     [0x80, 0x02, 0x4E, 0x63, 0x6F, 0x73, 0x0A, 0x73, 0x79, 0x73, 0x74, 0x65, 0x6D, 0x0A,
      0x29, 0x52, 0x86, 0x2E]"

text \<open>
  A stream that asks for an object of the type \<^verbatim>\<open>renpy.ast.Return\<close>, which is in that
  allow-list with no fields:
  \<^verbatim>\<open>PROTO 2, NONE, GLOBAL renpy.ast Return, EMPTY_TUPLE, REDUCE, TUPLE2, STOP\<close>.
\<close>

definition benign_stream :: bytes where
  "benign_stream =
     [0x80, 0x02, 0x4E, 0x63, 0x72, 0x65, 0x6E, 0x70, 0x79, 0x2E, 0x61, 0x73, 0x74, 0x0A,
      0x52, 0x65, 0x74, 0x75, 0x72, 0x6E, 0x0A, 0x29, 0x52, 0x86, 0x2E]"

section \<open>Packing, unpacking and the scan over an index\<close>

lemma length_uint_bytes_le [simp]: "length (uint_bytes_le k n) = k"
  by (induction k arbitrary: n) simp_all

lemma uint_le_bytes: "n < 256 ^ k \<Longrightarrow> uint_le (uint_bytes_le k n) = n"
proof (induction k arbitrary: n)
  case 0
  then show ?case by simp
next
  case (Suc k)
  have "n div 256 < 256 ^ k" using Suc.prems by (simp add: less_mult_imp_div_less mult.commute)
  then have "uint_le (uint_bytes_le k (n div 256)) = n div 256" by (rule Suc.IH)
  moreover have "unat (of_nat (n mod 256) :: byte) = n mod 256"
    by (simp add: unat_of_nat)
  ultimately show ?case by simp
qed

lemma length_pack_uint [simp]: "length (pack_uint bo n) = 4"
  by (cases bo) (simp_all add: pack_uint_def)

lemma unpack_pack_uint: "n < 2 ^ 32 \<Longrightarrow> unpack_uint bo (pack_uint bo n) = n"
  using uint_le_bytes [of n 4] by (cases bo) (simp_all add: unpack_uint_def pack_uint_def)

lemma length_struct_pack_III [simp]: "length (struct_pack_III bo r) = 12"
  by (cases r) simp

lemma struct_unpack_pack:
  "record_ok r \<Longrightarrow> struct_unpack_III bo (struct_pack_III bo r) = Inr r"
  by (cases r) (simp add: struct_unpack_III_def byte_slice_def unpack_pack_uint)

lemma slice_record:
  "byte_slice (pre @ struct_pack_III bo r @ rest) (length pre) (length pre + 12) = struct_pack_III bo r"
  by (simp add: byte_slice_def)

lemma scan_record:
  assumes "record_ok r" and "expected_slot < 0xFFFFFFFF"
    and "raw = pre @ struct_pack_III bo r @ rest"
  shows "scan bo raw expected_slot (length pre) chunks =
           (if fst r = 0 then Inr chunks
            else scan bo raw (expected_slot + 1) (length pre + 12) (store raw r chunks))"
proof -
  have "struct_unpack_III bo (byte_slice raw (length pre) (length pre + 12)) = Inr r"
    using assms(1,3) by (simp add: slice_record struct_unpack_pack)
  then show ?thesis
    using assms(2) by (cases r) (simp add: scan.simps [of bo raw expected_slot])
qed

lemma scan_records:
  assumes "\<forall>r \<in> set rs. record_ok r \<and> fst r \<noteq> 0"
    and "expected_slot + length rs \<le> 0xFFFFFFFF"
    and "raw = pre @ index_bytes bo rs @ rest"
  shows "scan bo raw expected_slot (length pre) chunks =
           scan bo raw (expected_slot + length rs) (length pre + 12 * length rs)
             (fold (store raw) rs chunks)"
  using assms
proof (induction rs arbitrary: pre expected_slot chunks)
  case Nil
  then show ?case by simp
next
  case (Cons r rs)
  have raw: "raw = pre @ struct_pack_III bo r @ (index_bytes bo rs @ rest)"
    using Cons.prems(3) by (simp add: index_bytes_def)
  have raw': "raw = (pre @ struct_pack_III bo r) @ index_bytes bo rs @ rest"
    using raw by simp
  have "scan bo raw expected_slot (length pre) chunks =
          scan bo raw (expected_slot + 1) (length pre + 12) (store raw r chunks)"
    using scan_record [OF _ _ raw, of expected_slot chunks] Cons.prems(1,2) by simp
  also have "\<dots> = scan bo raw (expected_slot + 1 + length rs)
                     (length (pre @ struct_pack_III bo r) + 12 * length rs)
                     (fold (store raw) rs (store raw r chunks))"
    using Cons.IH [OF _ _ raw', of "expected_slot + 1" "store raw r chunks"] Cons.prems(1,2)
    by simp
  finally show ?case by (simp add: add.assoc)
qed

lemma fold_store_other:
  "\<forall>r \<in> set rs. fst r \<noteq> k \<Longrightarrow> fold (store raw) rs chunks k = chunks k"
  by (induction rs arbitrary: chunks) auto

lemma fold_store_last:
  assumes "\<forall>r \<in> set rs3. fst r \<noteq> k"
  shows "fold (store raw) (rs1 @ (k, start, len) # rs3) chunks k = Some (byte_slice raw start (start + len))"
  using assms by (simp add: fold_store_other)

lemma startswith_magic [simp]: "startswith (magic @ rest) magic"
  by (simp add: startswith_def)

lemma length_magic [simp]: "length magic = 10"
  by (simp add: magic_def)

lemma length_index_bytes [simp]: "length (index_bytes bo rs) = 12 * length rs"
  by (induction rs) (simp_all add: index_bytes_def)

lemma index_bytes_append: "index_bytes bo (xs @ ys) = index_bytes bo xs @ index_bytes bo ys"
  by (simp add: index_bytes_def)

lemma scan_index:
  assumes ok: "\<forall>r \<in> set rs. record_ok r \<and> fst r \<noteq> 0"
    and t: "record_ok (0, s, l)"
    and raw: "raw = magic @ index_bytes bo rs @ struct_pack_III bo (0, s, l) @ rest"
  shows "scan bo raw 1 10 Map.empty = Inr (fold (store raw) (take 4294967294 rs) Map.empty)"
proof (cases "length rs < 4294967294")
  case True
  have "scan bo raw 1 (length magic) Map.empty =
          scan bo raw (1 + length rs) (length magic + 12 * length rs) (fold (store raw) rs Map.empty)"
    using ok True raw by (intro scan_records) auto
  also have "\<dots> = scan bo raw (1 + length rs) (length (magic @ index_bytes bo rs)) (fold (store raw) rs Map.empty)"
    by simp
  also have "\<dots> = Inr (fold (store raw) rs Map.empty)"
    using scan_record [OF t, of "1 + length rs" raw "magic @ index_bytes bo rs" bo rest] True raw
    by simp
  finally show ?thesis using True by simp
next
  case False
  define rs1 where "rs1 = take 4294967294 rs"
  define rs2 where "rs2 = drop 4294967294 rs"
  have len: "length rs1 = 4294967294" using False by (simp add: rs1_def)
  have rs: "rs = rs1 @ rs2" by (simp add: rs1_def rs2_def)
  have raw': "raw = magic @ index_bytes bo rs1 @ (index_bytes bo rs2 @ struct_pack_III bo (0, s, l) @ rest)"
    using raw rs by (simp add: index_bytes_append)
  have ok1: "\<forall>r \<in> set rs1. record_ok r \<and> fst r \<noteq> 0"
    using ok rs by auto
  have "scan bo raw 1 (length magic) Map.empty =
          scan bo raw (1 + length rs1) (length magic + 12 * length rs1) (fold (store raw) rs1 Map.empty)"
    using ok1 len raw' by (intro scan_records) auto
  also have "\<dots> = Inr (fold (store raw) rs1 Map.empty)"
    by (simp add: len scan.simps [of bo raw 4294967295])
  finally show ?thesis by (simp add: rs1_def)
qed

lemma uint_bytes_le_2:
  "uint_bytes_le 2 n = [of_nat (n mod 256), of_nat (n div 256 mod 256)]"
proof -
  have "(2::nat) = Suc (Suc 0)" by simp
  then show ?thesis by (simp only: uint_bytes_le.simps)
qed

lemma uint_bytes_le_4:
  "uint_bytes_le 4 n =
     [of_nat (n mod 256), of_nat (n div 256 mod 256),
      of_nat (n div 256 div 256 mod 256), of_nat (n div 256 div 256 div 256 mod 256)]"
proof -
  have "(4::nat) = Suc (Suc (Suc (Suc 0)))" by simp
  then show ?thesis by (simp only: uint_bytes_le.simps)
qed

lemmas eval_archive =
  read_payload_def magic_def startswith_def scan.simps struct_unpack_III_def byte_slice_def
  unpack_uint_def pack_uint_def uint_bytes_le_4 index_bytes_def

lemma read_payload_index:
  assumes "\<forall>r \<in> set rs. record_ok r \<and> fst r \<noteq> 0"
    and "record_ok (0, s, l)"
    and "raw = magic @ index_bytes bo rs @ struct_pack_III bo (0, s, l) @ rest"
  shows "read_payload bo raw =
           (case fold (store raw) (take 4294967294 rs) Map.empty 1 of
              None \<Rightarrow> Inl ValueError
            | Some contents \<Rightarrow> Inr contents)"
  using scan_index [OF assms] assms(3) by (simp add: read_payload_def)

lemma fold_store_replicate:
  "0 < n \<Longrightarrow> fold (store raw) (replicate n (slot, start, len)) chunks slot =
     Some (byte_slice raw start (start + len))"
proof -
  assume "0 < n"
  then obtain m where n: "n = Suc m" by (cases n) auto
  have "replicate n (slot, start, len) = replicate m (slot, start, len) @ (slot, start, len) # []"
    unfolding n by (simp add: replicate_append_same)
  then show ?thesis
    using fold_store_last [of "[]" slot raw "replicate m (slot, start, len)" start len chunks]
    by simp
qed

section \<open>The legacy path\<close>

text \<open>
  Claim C5. An input that does not begin with the ten bytes of the marker is returned
  whole and unchanged as the payload, so the rest of the pipeline sees exactly what it
  would see if those bytes were handed to it directly.
\<close>

theorem legacy_payload_unchanged:
  "\<not> startswith raw_contents magic \<Longrightarrow>
     read_payload bo raw_contents = Inr raw_contents \<and>
     read_ast_from_file bo decompress loads raw_contents =
       (case decompress raw_contents of
          Inl e \<Rightarrow> Inl e
        | Inr stream \<Rightarrow> (case loads stream of Inl e \<Rightarrow> Inl e | Inr (m, stmts) \<Rightarrow> Inr stmts))"
  by (simp add: read_payload_def read_ast_from_file_def)

theorem legacy_payload_unchanged_witness:
  "\<not> startswith [0x78, 0x9C, 0x03] magic \<and>
   read_payload LittleEndian [0x78, 0x9C, 0x03] = Inr [0x78, 0x9C, 0x03] \<and>
   read_ast_from_file LittleEndian (zlib_decompress no_huffman)
       (pickle_safe_loads example_allow pickle_decode) [0x78, 0x9C, 0x03] =
     (case zlib_decompress no_huffman [0x78, 0x9C, 0x03] of
        Inl e \<Rightarrow> Inl e
      | Inr stream \<Rightarrow>
          (case pickle_safe_loads example_allow pickle_decode stream of
             Inl e \<Rightarrow> Inl e
           | Inr (m, stmts) \<Rightarrow> Inr stmts))"
proof -
  have h: "\<not> startswith [0x78, 0x9C, 0x03] magic"
    by (simp add: startswith_def magic_def)
  show ?thesis
    using h legacy_payload_unchanged [OF h, of LittleEndian "zlib_decompress no_huffman"
        "pickle_safe_loads example_allow pickle_decode"]
    by blast
qed

section \<open>The data slot\<close>

text \<open>
  Claim C4. An indexed archive whose index holds records for other slots only (none for
  slot 1, such as records for slots 2 and 3) and then the zero-slot record makes the
  reader raise the \<^verbatim>\<open>ValueError\<close> of line 50, whatever follows the index; it returns no
  payload, empty or otherwise. This holds for an index of any length.
\<close>

theorem missing_data_slot:
  assumes "\<forall>r \<in> set rs. record_ok r \<and> fst r \<noteq> 0 \<and> fst r \<noteq> 1"
    and "record_ok (0, s, l)"
    and "raw = magic @ index_bytes bo rs @ struct_pack_III bo (0, s, l) @ rest"
  shows "read_payload bo raw = Inl ValueError \<and>
         read_ast_from_file bo decompress loads raw = Inl ValueError"
proof -
  have "\<forall>r \<in> set (take 4294967294 rs). fst r \<noteq> 1"
    using assms(1) by (auto dest: in_set_takeD)
  then have "fold (store raw) (take 4294967294 rs) Map.empty 1 = None"
    by (simp add: fold_store_other)
  moreover have "\<forall>r \<in> set rs. record_ok r \<and> fst r \<noteq> 0"
    using assms(1) by simp
  ultimately have "read_payload bo raw = Inl ValueError"
    using read_payload_index [OF _ assms(2,3)] by simp
  then show ?thesis by (simp add: read_ast_from_file_def)
qed

theorem missing_data_slot_witness:
  "record_ok (2, 46, 1) \<and> record_ok (3, 47, 1) \<and> record_ok (0, 0, 0) \<and>
   read_payload LittleEndian
     (magic @ index_bytes LittleEndian [(2, 46, 1), (3, 47, 1)]
        @ struct_pack_III LittleEndian (0, 0, 0) @ [0x78, 0x9C]) = Inl ValueError \<and>
   read_ast_from_file LittleEndian (zlib_decompress no_huffman)
     (pickle_safe_loads example_allow pickle_decode)
     (magic @ index_bytes LittleEndian [(2, 46, 1), (3, 47, 1)]
        @ struct_pack_III LittleEndian (0, 0, 0) @ [0x78, 0x9C]) = Inl ValueError"
proof -
  have h1: "\<forall>r \<in> set [(2::nat, 46::nat, 1::nat), (3, 47, 1)]. record_ok r \<and> fst r \<noteq> 0 \<and> fst r \<noteq> 1"
    by simp
  have h2: "record_ok (0, 0, 0)"
    by simp
  show ?thesis
    using missing_data_slot [OF h1 h2 refl, of LittleEndian "[0x78, 0x9C]"
        "zlib_decompress no_huffman" "pickle_safe_loads example_allow pickle_decode"]
    by simp
qed

section \<open>Several records for one slot\<close>

text \<open>
  Claim C10, as amended. The scan reads at most 4294967294 records. Among the records it
  reads, the last one for a slot decides the entry of that slot in the dictionary: the
  entry is the byte range \<^verbatim>\<open>raw_contents[start : start + length]\<close> of that record,
  whatever earlier records for the slot said; for slot 1 this is the payload.
\<close>

theorem last_record_wins:
  assumes "\<forall>r \<in> set rs. record_ok r \<and> fst r \<noteq> 0"
    and "record_ok (0, s, l)"
    and "raw = magic @ index_bytes bo rs @ struct_pack_III bo (0, s, l) @ rest"
    and "take 4294967294 rs = rs1 @ (slot, start, len) # rs3"
    and "\<forall>r \<in> set rs3. fst r \<noteq> slot"
  shows "scan bo raw 1 10 Map.empty = Inr (fold (store raw) (take 4294967294 rs) Map.empty) \<and>
         fold (store raw) (take 4294967294 rs) Map.empty slot =
           Some (byte_slice raw start (start + len)) \<and>
         (slot = 1 \<longrightarrow> read_payload bo raw = Inr (byte_slice raw start (start + len)))"
proof -
  have a: "fold (store raw) (take 4294967294 rs) Map.empty slot =
             Some (byte_slice raw start (start + len))"
    unfolding assms(4) using assms(5) by (rule fold_store_last)
  have b: "slot = 1 \<longrightarrow> read_payload bo raw = Inr (byte_slice raw start (start + len))"
  proof
    assume "slot = 1"
    then have "fold (store raw) (take 4294967294 rs) Map.empty 1 =
                 Some (byte_slice raw start (start + len))"
      using a by simp
    then show "read_payload bo raw = Inr (byte_slice raw start (start + len))"
      by (simp only: read_payload_index [OF assms(1,2,3)] option.case)
  qed
  show ?thesis
    using a b scan_index [OF assms(1,2,3)] by blast
qed

theorem last_record_wins_witness:
  "record_ok (1, 46, 2) \<and> record_ok (1, 48, 3) \<and> record_ok (0, 0, 0) \<and>
   take 4294967294 [(1::nat, 46::nat, 2::nat), (1, 48, 3)] = [(1, 46, 2)] @ (1, 48, 3) # [] \<and>
   read_payload LittleEndian
     (magic @ index_bytes LittleEndian [(1, 46, 2), (1, 48, 3)]
        @ struct_pack_III LittleEndian (0, 0, 0) @ [1, 2, 3, 4, 5]) = Inr [3, 4, 5]"
proof -
  have h1: "\<forall>r \<in> set [(1::nat, 46::nat, 2::nat), (1, 48, 3)]. record_ok r \<and> fst r \<noteq> 0"
    by simp
  have h2: "record_ok (0, 0, 0)"
    by simp
  have h3: "take 4294967294 [(1::nat, 46::nat, 2::nat), (1, 48, 3)] = [(1, 46, 2)] @ (1, 48, 3) # []"
    by simp
  have h4: "\<forall>r \<in> set ([] :: (nat \<times> nat \<times> nat) list). fst r \<noteq> 1"
    by simp
  have "read_payload LittleEndian
     (magic @ index_bytes LittleEndian [(1, 46, 2), (1, 48, 3)]
        @ struct_pack_III LittleEndian (0, 0, 0) @ [1, 2, 3, 4, 5]) =
     Inr (byte_slice (magic @ index_bytes LittleEndian [(1, 46, 2), (1, 48, 3)]
        @ struct_pack_III LittleEndian (0, 0, 0) @ [1, 2, 3, 4, 5]) 48 (48 + 3))"
    using last_record_wins [OF h1 h2 refl h3 h4, of LittleEndian "[1, 2, 3, 4, 5]"] by blast
  also have "\<dots> = Inr [3, 4, 5]"
    by (simp add: byte_slice_def magic_def index_bytes_def)
  finally show ?thesis
    by simp
qed

text \<open>
  The claim as it was stated fails on an archive with more records than the loop reads:
  4294967294 records \<open>(1, 0, 0)\<close>, then the record \<open>(1, 0, 1)\<close>, then the zero-slot record.
  The last record for slot 1 addresses the first byte of the archive, but the payload is
  the empty range of the records before it.
\<close>

theorem last_record_wins_counterexample:
  "read_payload LittleEndian
     (magic @ index_bytes LittleEndian (replicate 4294967294 (1, 0, 0) @ [(1, 0, 1)])
        @ struct_pack_III LittleEndian (0, 0, 0)) = Inr [] \<and>
   byte_slice
     (magic @ index_bytes LittleEndian (replicate 4294967294 (1, 0, 0) @ [(1, 0, 1)])
        @ struct_pack_III LittleEndian (0, 0, 0)) 0 (0 + 1) = [0x52]"
proof -
  define raw where "raw = magic @ index_bytes LittleEndian (replicate 4294967294 (1, 0, 0) @ [(1, 0, 1)])
        @ struct_pack_III LittleEndian (0, 0, 0) @ []"
  have "read_payload LittleEndian raw =
          (case fold (store raw) (take 4294967294 (replicate 4294967294 (1, 0, 0) @ [(1, 0, 1)])) Map.empty 1 of
              None \<Rightarrow> Inl ValueError
            | Some contents \<Rightarrow> Inr contents)"
    by (rule read_payload_index [where s = 0 and l = 0 and rest = "[]"]) (auto simp: raw_def)
  also have "take 4294967294 (replicate 4294967294 (1::nat, 0::nat, 0::nat) @ [(1, 0, 1)]) =
      replicate 4294967294 (1, 0, 0)"
    by simp
  also have "fold (store raw) (replicate 4294967294 (1, 0, 0)) Map.empty 1 = Some (byte_slice raw 0 (0 + 0))"
    by (rule fold_store_replicate) simp
  finally have "read_payload LittleEndian raw = Inr []"
    by (simp add: byte_slice_def)
  moreover have "byte_slice raw 0 (0 + 1) = [0x52]"
    by (simp add: raw_def byte_slice_def magic_def)
  ultimately show ?thesis by (simp add: raw_def)
qed

section \<open>The bounds of the payload\<close>

lemma scan_index_full:
  assumes ok: "\<forall>r \<in> set rs. record_ok r \<and> fst r \<noteq> 0"
    and full: "4294967294 \<le> length rs"
    and raw: "raw = magic @ index_bytes bo rs @ rest"
  shows "scan bo raw 1 10 Map.empty = Inr (fold (store raw) (take 4294967294 rs) Map.empty)"
proof -
  define rs1 where "rs1 = take 4294967294 rs"
  define rs2 where "rs2 = drop 4294967294 rs"
  have len: "length rs1 = 4294967294" using full by (simp add: rs1_def)
  have rs: "rs = rs1 @ rs2" by (simp add: rs1_def rs2_def)
  have raw': "raw = magic @ index_bytes bo rs1 @ (index_bytes bo rs2 @ rest)"
    using raw rs by (simp add: index_bytes_append)
  have ok1: "\<forall>r \<in> set rs1. record_ok r \<and> fst r \<noteq> 0"
    using ok rs by auto
  have "scan bo raw 1 (length magic) Map.empty =
          scan bo raw (1 + length rs1) (length magic + 12 * length rs1) (fold (store raw) rs1 Map.empty)"
    using ok1 len raw' by (intro scan_records) auto
  also have "\<dots> = Inr (fold (store raw) rs1 Map.empty)"
    by (simp add: len scan.simps [of bo raw 4294967295])
  finally show ?thesis by (simp add: rs1_def)
qed




section \<open>Truncated indexes\<close>

lemma take_archive:
  assumes "k \<le> length rs" and "10 + 12 * k \<le> n"
  shows "take n (magic @ index_bytes bo rs @ rest) =
           magic @ index_bytes bo (take k rs) @ take (n - 10 - 12 * k) (index_bytes bo (drop k rs) @ rest)"
proof -
  define A where "A = magic @ index_bytes bo (take k rs)"
  define B where "B = index_bytes bo (drop k rs) @ rest"
  have "index_bytes bo rs = index_bytes bo (take k rs) @ index_bytes bo (drop k rs)"
    by (simp add: index_bytes_append [symmetric])
  then have whole: "magic @ index_bytes bo rs @ rest = A @ B"
    by (simp add: A_def B_def)
  have len: "length A = 10 + 12 * k"
    using assms(1) by (simp add: A_def)
  have "take n (A @ B) = A @ take (n - length A) B"
    using assms(2) len by simp
  then show ?thesis
    unfolding whole len by (simp add: A_def B_def)
qed

lemma read_payload_truncated:
  assumes ok: "\<forall>r \<in> set rs. record_ok r \<and> fst r \<noteq> 0"
    and cap: "length rs < 4294967294"
    and short: "length tail < 12"
  shows "read_payload bo (magic @ index_bytes bo rs @ tail) = Inl StructError"
proof -
  define raw where "raw = magic @ index_bytes bo rs @ tail"
  have "scan bo raw 1 (length magic) Map.empty =
          scan bo raw (1 + length rs) (length magic + 12 * length rs) (fold (store raw) rs Map.empty)"
    using ok cap by (intro scan_records) (auto simp: raw_def)
  also have "byte_slice raw (length magic + 12 * length rs) (length magic + 12 * length rs + 12) = tail"
    using short by (simp add: raw_def byte_slice_def)
  then have "scan bo raw (1 + length rs) (length magic + 12 * length rs) (fold (store raw) rs Map.empty) =
      Inl StructError"
    using cap short by (subst scan.simps) (simp add: struct_unpack_III_def)
  finally show ?thesis
    by (simp add: read_payload_def raw_def)
qed

text \<open>
  Claim C3, as amended. The scan reads at most 4294967294 records. In an indexed archive
  with fewer records than that, none of them with slot zero, followed by fewer than 12
  bytes, the next \<^verbatim>\<open>struct.unpack\<close> gets a short buffer and raises \<^verbatim>\<open>struct.error\<close>;
  slices never reach beyond the buffer. In particular, an archive cut anywhere from the
  start of one of those records, or of the zero-slot record, to before its end fails in
  this way.
\<close>

theorem truncated_index:
  assumes "\<forall>r \<in> set rs. record_ok r \<and> fst r \<noteq> 0"
    and "length rs < 4294967294"
  shows "(\<forall>tail. length tail < 12 \<longrightarrow>
            read_payload bo (magic @ index_bytes bo rs @ tail) = Inl StructError \<and>
            read_ast_from_file bo decompress loads (magic @ index_bytes bo rs @ tail) = Inl StructError) \<and>
         (\<forall>k n rest. k \<le> length rs \<longrightarrow> 10 + 12 * k \<le> n \<longrightarrow> n < 10 + 12 * (k + 1) \<longrightarrow>
            read_payload bo (take n (magic @ index_bytes bo rs @ rest)) = Inl StructError)"
proof (intro conjI allI impI)
  fix tail :: bytes
  assume "length tail < 12"
  then show a: "read_payload bo (magic @ index_bytes bo rs @ tail) = Inl StructError"
    using assms by (rule read_payload_truncated [rotated 2])
  then show "read_ast_from_file bo decompress loads (magic @ index_bytes bo rs @ tail) = Inl StructError"
    by (simp add: read_ast_from_file_def)
next
  fix k n rest
  assume k: "k \<le> length rs" and lo: "10 + 12 * k \<le> n" and hi: "n < 10 + 12 * (k + 1)"
  have ok: "\<forall>r \<in> set (take k rs). record_ok r \<and> fst r \<noteq> 0"
    using assms(1) by (auto dest: in_set_takeD)
  have cap: "length (take k rs) < 4294967294"
    using assms(2) by simp
  have short: "length (take (n - 10 - 12 * k) (index_bytes bo (drop k rs) @ rest)) < 12"
    using hi by simp
  show "read_payload bo (take n (magic @ index_bytes bo rs @ rest)) = Inl StructError"
    unfolding take_archive [OF k lo] using ok cap short by (rule read_payload_truncated)
qed

theorem truncated_index_witness:
  "record_ok (1, 34, 5) \<and> length [(1::nat, 34::nat, 5::nat)] < 4294967294 \<and>
   length [0, 0, 0 :: byte] < 12 \<and>
   read_payload LittleEndian (magic @ index_bytes LittleEndian [(1, 34, 5)] @ [0, 0, 0]) =
     Inl StructError \<and>
   read_payload LittleEndian
     (take 25 (magic @ index_bytes LittleEndian [(1, 34, 5)]
        @ struct_pack_III LittleEndian (0, 0, 0) @ [1, 2, 3, 4, 5])) = Inl StructError"
proof -
  have h1: "\<forall>r \<in> set [(1::nat, 34::nat, 5::nat)]. record_ok r \<and> fst r \<noteq> 0"
    by simp
  have h2: "length [(1::nat, 34::nat, 5::nat)] < 4294967294"
    by simp
  note t = truncated_index [OF h1 h2, of LittleEndian "zlib_decompress no_huffman"
      "pickle_safe_loads example_allow pickle_decode"]
  have a: "read_payload LittleEndian (magic @ index_bytes LittleEndian [(1, 34, 5)] @ [0, 0, 0]) =
     Inl StructError"
    using t [THEN conjunct1, THEN spec, of "[0, 0, 0]"] by simp
  have b: "read_payload LittleEndian
     (take 25 (magic @ index_bytes LittleEndian [(1, 34, 5)]
        @ struct_pack_III LittleEndian (0, 0, 0) @ [1, 2, 3, 4, 5])) = Inl StructError"
    using t [THEN conjunct2, THEN spec, THEN spec, THEN spec, of 1 25
        "struct_pack_III LittleEndian (0, 0, 0) @ [1, 2, 3, 4, 5]"] by simp
  show ?thesis
    using a b by simp
qed

text \<open>
  The claim as it was stated fails on an archive with as many records as the loop reads:
  after 4294967294 records \<open>(1, 0, 0)\<close> one byte remains where the next record would
  start, but the loop has ended and the reader returns the empty payload of slot 1.
\<close>

theorem truncated_index_counterexample:
  "read_payload LittleEndian
     (magic @ index_bytes LittleEndian (replicate 4294967294 (1, 0, 0)) @ [0]) = Inr []"
proof -
  define raw where "raw = magic @ index_bytes LittleEndian (replicate 4294967294 (1, 0, 0)) @ [0]"
  have "scan LittleEndian raw 1 10 Map.empty =
          Inr (fold (store raw) (take 4294967294 (replicate 4294967294 (1, 0, 0))) Map.empty)"
    by (rule scan_index_full [where rest = "[0]"]) (auto simp: raw_def)
  moreover have "fold (store raw) (replicate 4294967294 (1, 0, 0)) Map.empty 1 = Some (byte_slice raw 0 (0 + 0))"
    by (rule fold_store_replicate) simp
  ultimately have "read_payload LittleEndian raw = Inr []"
    by (simp add: read_payload_def raw_def byte_slice_def)
  then show ?thesis by (simp add: raw_def)
qed

section \<open>Framing a payload\<close>

lemma read_payload_single:
  assumes "length Z < 2 ^ 32"
  shows "read_payload bo
           (magic @ struct_pack_III bo (1, 34, length Z) @ struct_pack_III bo (0, 0, 0) @ Z) = Inr Z"
proof -
  define raw where "raw = magic @ index_bytes bo [(1, 34, length Z)] @ struct_pack_III bo (0, 0, 0) @ Z"
  have ok: "\<forall>r \<in> set [(1, 34, length Z)]. record_ok r \<and> fst r \<noteq> 0"
    using assms by simp
  have t: "record_ok (0, 0, 0)"
    by simp
  have "read_payload bo raw =
          (case fold (store raw) (take 4294967294 [(1, 34, length Z)]) Map.empty 1 of
             None \<Rightarrow> Inl ValueError
           | Some contents \<Rightarrow> Inr contents)"
    using ok t raw_def by (rule read_payload_index)
  also have "\<dots> = Inr (byte_slice raw 34 (34 + length Z))"
    by simp
  also have "byte_slice raw 34 (34 + length Z) = Z"
    by (simp add: raw_def byte_slice_def index_bytes_def)
  finally show ?thesis
    by (simp add: raw_def index_bytes_def)
qed

lemma stored_roundtrip_example:
  "zlib_decompress no_huffman (zlib_compress_stored example_stream) = Inr example_stream"
  by (simp add: example_stream_def zlib_compress_stored_def zlib_decompress_def zlib_header_ok_def
      inflate_blocks.simps adler32_def uint_bytes_le_2 uint_bytes_le_4)

lemma length_stored_example: "length (zlib_compress_stored example_stream) = 21"
  by (simp add: example_stream_def zlib_compress_stored_def)


text \<open>
  Claim C6, as amended. Take any payload \<open>P\<close> and a compressor whose output the
  decompressor turns back into \<open>P\<close>. Wrap the compressed bytes as the marker, one record
  for slot 1 that addresses them (they start at offset 34, after the marker and two
  records), and the zero-slot record, the records packed in the byte order of the machine
  that reads the archive, as \<^verbatim>\<open>struct.pack("III", ...)\<close> packs them there. Then the
  reader returns exactly the compressed bytes and decompression gives back \<open>P\<close>. The
  compressed length must fit the 32-bit field of the record.
\<close>

theorem roundtrip_framing:
  assumes "decompress (compress P) = Inr P"
    and "length (compress P) < 2 ^ 32"
  shows "read_payload bo
           (magic @ struct_pack_III bo (1, 34, length (compress P))
              @ struct_pack_III bo (0, 0, 0) @ compress P) = Inr (compress P) \<and>
         (case read_payload bo
                 (magic @ struct_pack_III bo (1, 34, length (compress P))
                    @ struct_pack_III bo (0, 0, 0) @ compress P) of
            Inl e \<Rightarrow> Inl e
          | Inr contents \<Rightarrow> decompress contents) = Inr P"
proof -
  have a: "read_payload bo
           (magic @ struct_pack_III bo (1, 34, length (compress P))
              @ struct_pack_III bo (0, 0, 0) @ compress P) = Inr (compress P)"
    using assms(2) by (rule read_payload_single)
  show ?thesis
    by (simp only: a assms(1) sum.case)
qed

theorem roundtrip_framing_witness:
  "zlib_decompress no_huffman (zlib_compress_stored example_stream) = Inr example_stream \<and>
   length (zlib_compress_stored example_stream) < 2 ^ 32 \<and>
   (case read_payload LittleEndian
           (magic @ struct_pack_III LittleEndian (1, 34, length (zlib_compress_stored example_stream))
              @ struct_pack_III LittleEndian (0, 0, 0) @ zlib_compress_stored example_stream) of
      Inl e \<Rightarrow> Inl e
    | Inr contents \<Rightarrow> zlib_decompress no_huffman contents) = Inr example_stream"
proof -
  have h2: "length (zlib_compress_stored example_stream) < 2 ^ 32"
    by (simp add: length_stored_example)
  show ?thesis
    using stored_roundtrip_example h2
      roundtrip_framing [where decompress = "zlib_decompress no_huffman"
        and compress = zlib_compress_stored and P = example_stream and bo = LittleEndian,
        OF stored_roundtrip_example h2]
    by blast
qed

text \<open>
  The claim as it was stated, with the little-endian records of the specification, fails
  on a big-endian machine: the record for slot 1 is read there as a record for slot
  16777216, no entry for slot 1 is left, and the reader raises the \<^verbatim>\<open>ValueError\<close> of
  line 50 instead of returning the compressed bytes.
\<close>

theorem roundtrip_framing_counterexample:
  "(case read_payload BigEndian
           (magic @ struct_pack_III LittleEndian (1, 34, length (zlib_compress_stored example_stream))
              @ struct_pack_III LittleEndian (0, 0, 0) @ zlib_compress_stored example_stream) of
      Inl e \<Rightarrow> Inl e
    | Inr contents \<Rightarrow> zlib_decompress no_huffman contents) = Inl ValueError"
  by (simp add: eval_archive example_stream_def zlib_compress_stored_def uint_bytes_le_2 adler32_def)

section \<open>The end-to-end example\<close>




section \<open>The byte order of a record\<close>

lemma uint_le_4: "length bs = 4 \<Longrightarrow> uint_le bs = spec_le32 bs"
proof -
  assume "length bs = 4"
  then have "length bs = Suc (Suc (Suc (Suc 0)))" by simp
  then obtain b0 b1 b2 b3 where "bs = [b0, b1, b2, b3]"
    by (auto simp: length_Suc_conv)
  then show ?thesis by simp
qed

text \<open>
  Claim C8, as amended. A 12-byte record is decoded as three unsigned 32-bit integers in
  the byte order of the machine: \<^verbatim>\<open>"III"\<close> carries no byte-order mark. On a little-endian
  machine that is the little-endian reading of the specification; on a big-endian machine
  each field is read with its most significant byte first.
\<close>

theorem native_byte_order:
  assumes "length buf = 12"
  shows "struct_unpack_III LittleEndian buf = Inr (spec_record buf) \<and>
         struct_unpack_III BigEndian buf =
           Inr (spec_le32 (rev (take 4 buf)), spec_le32 (rev (take 4 (drop 4 buf))),
                spec_le32 (rev (take 4 (drop 8 buf))))"
  using assms
  by (simp add: struct_unpack_III_def unpack_uint_def byte_slice_def spec_record_def uint_le_4)

theorem native_byte_order_witness:
  "length [1, 0, 0, 0, 0x22, 0, 0, 0, 5, 0, 0, 0 :: byte] = 12 \<and>
   struct_unpack_III LittleEndian [1, 0, 0, 0, 0x22, 0, 0, 0, 5, 0, 0, 0] = Inr (1, 34, 5)"
proof -
  have h: "length [1, 0, 0, 0, 0x22, 0, 0, 0, 5, 0, 0, 0 :: byte] = 12"
    by simp
  have "spec_record [1, 0, 0, 0, 0x22, 0, 0, 0, 5, 0, 0, 0] = (1, 34, 5)"
    by (simp add: spec_record_def)
  then show ?thesis
    using h native_byte_order [OF h] by simp
qed

text \<open>
  The claim as it was stated fails on a big-endian machine: the bytes that hold the
  record \<open>(1, 34, 5)\<close> in little-endian order are decoded there as other numbers.
\<close>

theorem native_byte_order_counterexample:
  "struct_unpack_III BigEndian [1, 0, 0, 0, 0x22, 0, 0, 0, 5, 0, 0, 0] =
     Inr (16777216, 570425344, 83886080) \<and>
   spec_record [1, 0, 0, 0, 0x22, 0, 0, 0, 5, 0, 0, 0] = (1, 34, 5)"
  by (simp add: struct_unpack_III_def unpack_uint_def byte_slice_def spec_record_def)

section \<open>Termination of the scan\<close>

lemma unpack_ok_length:
  "struct_unpack_III bo (byte_slice raw position (position + 12)) = Inr r \<Longrightarrow>
     position + 12 \<le> length raw"
  by (auto simp: struct_unpack_III_def byte_slice_def split: if_splits)

lemma scan_steps_buffer:
  "scan_steps bo raw expected_slot position \<le> (length raw - position) div 12 + 1"
proof (induction bo raw expected_slot position rule: scan_steps.induct)
  case (1 bo raw expected_slot position)
  show ?case
  proof (cases "expected_slot < 0xFFFFFFFF")
    case False
    then show ?thesis by (simp add: scan_steps.simps [of bo raw expected_slot])
  next
    case True
    show ?thesis
    proof (cases "struct_unpack_III bo (byte_slice raw position (position + 12))")
      case (Inl e)
      then show ?thesis using True by (simp add: scan_steps.simps [of bo raw expected_slot])
    next
      case (Inr r)
      obtain slot start len where r: "r = (slot, start, len)" by (cases r)
      have fit: "position + 12 \<le> length raw"
        using Inr by (rule unpack_ok_length)
      show ?thesis
      proof (cases "slot = 0")
        case True
        then show ?thesis
          using \<open>expected_slot < 0xFFFFFFFF\<close> Inr r
          by (simp add: scan_steps.simps [of bo raw expected_slot])
      next
        case False
        have "scan_steps bo raw (expected_slot + 1) (position + 12)
                \<le> (length raw - (position + 12)) div 12 + 1"
          using "1.IH" [OF True Inr r [symmetric] refl False] .
        moreover have "(length raw - (position + 12)) div 12 + 1 = (length raw - position) div 12"
        proof -
          have "12 \<le> length raw - position" using fit by simp
          then show ?thesis
            using le_div_geq [of 12 "length raw - position"] by simp
        qed
        ultimately show ?thesis
          using True Inr r False by (simp add: scan_steps.simps [of bo raw expected_slot])
      qed
    qed
  qed
qed

lemma scan_steps_range:
  "scan_steps bo raw expected_slot position \<le> 0xFFFFFFFF - expected_slot"
proof (induction bo raw expected_slot position rule: scan_steps.induct)
  case (1 bo raw expected_slot position)
  show ?case
  proof (cases "expected_slot < 0xFFFFFFFF")
    case False
    then show ?thesis by (simp add: scan_steps.simps [of bo raw expected_slot])
  next
    case True
    show ?thesis
    proof (cases "struct_unpack_III bo (byte_slice raw position (position + 12))")
      case (Inl e)
      then show ?thesis using True by (simp add: scan_steps.simps [of bo raw expected_slot])
    next
      case (Inr r)
      obtain slot start len where r: "r = (slot, start, len)" by (cases r)
      show ?thesis
      proof (cases "slot = 0")
        case True
        then show ?thesis
          using \<open>expected_slot < 0xFFFFFFFF\<close> Inr r
          by (simp add: scan_steps.simps [of bo raw expected_slot])
      next
        case False
        have "scan_steps bo raw (expected_slot + 1) (position + 12)
                \<le> 0xFFFFFFFF - (expected_slot + 1)"
          using "1.IH" [OF True Inr r [symmetric] refl False] .
        then show ?thesis
          using True Inr r False by (simp add: scan_steps.simps [of bo raw expected_slot])
      qed
    qed
  qed
qed

lemma unpack_slot_at:
  assumes "struct_unpack_III bo (byte_slice raw position (position + 12)) = Inr (slot, start, len)"
  shows "slot = slot_at bo raw position"
proof -
  have fit: "position + 12 \<le> length raw"
    using assms by (rule unpack_ok_length)
  have "byte_slice (byte_slice raw position (position + 12)) 0 4 = byte_slice raw position (position + 4)"
    by (simp add: byte_slice_def)
  then show ?thesis
    using assms fit by (simp add: struct_unpack_III_def slot_at_def split: if_splits)
qed

lemma scan_no_sentinel:
  "no_sentinel bo raw \<Longrightarrow> (length raw - 10) div 12 < 4294967294 \<Longrightarrow>
         1 \<le> expected_slot \<Longrightarrow> position = 10 + 12 * (expected_slot - 1) \<Longrightarrow>
         expected_slot \<le> (length raw - 10) div 12 + 1 \<Longrightarrow>
         scan bo raw expected_slot position chunks = Inl StructError"
proof (induction bo raw expected_slot position chunks rule: scan.induct)
  case (1 bo raw expected_slot position chunks)
  define d where "d = (length raw - 10) div 12"
  have "expected_slot \<le> d + 1"
    using "1.prems"(5) by (simp add: d_def)
  moreover have "d < 4294967294"
    using "1.prems"(2) by (simp add: d_def)
  ultimately have lt: "expected_slot < 0xFFFFFFFF"
    by simp
  show ?case
  proof (cases "struct_unpack_III bo (byte_slice raw position (position + 12))")
    case (Inl e)
    then have "e = StructError"
      by (auto simp: struct_unpack_III_def split: if_splits)
    then show ?thesis
      using Inl lt by (simp add: scan.simps [of bo raw expected_slot])
  next
    case (Inr r)
    obtain slot start len where r: "r = (slot, start, len)" by (cases r)
    have fit: "position + 12 \<le> length raw"
      using Inr by (rule unpack_ok_length)
    have "slot = slot_at bo raw position"
      using Inr r by (simp add: unpack_slot_at)
    moreover have "slot_at bo raw (10 + 12 * (expected_slot - 1)) \<noteq> 0"
      using "1.prems"(1) fit "1.prems"(4) by (simp add: no_sentinel_def)
    ultimately have nz: "slot \<noteq> 0"
      using "1.prems"(4) by simp
    have "expected_slot * 12 \<le> length raw - 10"
      using fit "1.prems"(3,4) by (cases expected_slot) auto
    then have next_le: "expected_slot + 1 \<le> (length raw - 10) div 12 + 1"
      by (simp add: less_eq_div_iff_mult_less_eq)
    have one: "1 \<le> expected_slot + 1"
      by simp
    have pos': "position + 12 = 10 + 12 * (expected_slot + 1 - 1)"
      using "1.prems"(3,4) by (cases expected_slot) auto
    have "scan bo raw (expected_slot + 1) (position + 12)
            (chunks(slot \<mapsto> byte_slice raw start (start + len))) = Inl StructError"
      using "1.IH" [OF lt Inr r [symmetric] refl nz "1.prems"(1,2) one pos' next_le] .
    then show ?thesis
      using lt Inr r nz by (simp add: scan.simps [of bo raw expected_slot])
  qed
qed

lemma read_payload_no_sentinel:
  assumes "startswith raw magic" and "no_sentinel bo raw"
    and "(length raw - 10) div 12 < 4294967294"
  shows "read_payload bo raw = Inl StructError"
proof -
  have "scan bo raw 1 10 Map.empty = Inl StructError"
    using assms(2,3) by (rule scan_no_sentinel) simp_all
  then show ?thesis
    using assms(1) by (simp add: read_payload_def)
qed

lemma slot_at_record:
  assumes "record_ok r"
  shows "slot_at bo (pre @ struct_pack_III bo r @ rest) (length pre) = fst r"
proof -
  obtain slot start len where r: "r = (slot, start, len)" by (cases r)
  have "byte_slice (pre @ struct_pack_III bo r @ rest) (length pre) (length pre + 4) = pack_uint bo slot"
    by (simp add: r byte_slice_def)
  then show ?thesis
    using assms r by (simp add: slot_at_def unpack_pack_uint)
qed

lemma replicate_split:
  "k < n \<Longrightarrow> replicate n x = replicate k x @ x # replicate (n - Suc k) x"
proof -
  assume "k < n"
  then have "n = k + Suc (n - Suc k)" by simp
  then have "replicate n x = replicate (k + Suc (n - Suc k)) x" by simp
  then show ?thesis by (simp only: replicate_add replicate_Suc)
qed

lemma no_sentinel_replicate:
  assumes "record_ok r" and "fst r \<noteq> 0"
  shows "no_sentinel bo (magic @ index_bytes bo (replicate n r))"
  unfolding no_sentinel_def
proof (intro allI impI)
  fix k
  assume "10 + 12 * k + 12 \<le> length (magic @ index_bytes bo (replicate n r))"
  then have k: "k < n" by simp
  have "magic @ index_bytes bo (replicate n r) =
          (magic @ index_bytes bo (replicate k r)) @ struct_pack_III bo r
             @ index_bytes bo (replicate (n - Suc k) r)"
    by (simp add: replicate_split [OF k, of r] index_bytes_def)
  moreover have "length (magic @ index_bytes bo (replicate k r)) = 10 + 12 * k"
    by simp
  ultimately have "slot_at bo (magic @ index_bytes bo (replicate n r)) (10 + 12 * k) = fst r"
    using slot_at_record [OF assms(1), of bo "magic @ index_bytes bo (replicate k r)"
        "index_bytes bo (replicate (n - Suc k) r)"]
    by simp
  then show "slot_at bo (magic @ index_bytes bo (replicate n r)) (10 + 12 * k) \<noteq> 0"
    using assms(2) by simp
qed

lemma scan_steps_record:
  assumes "record_ok r" and "fst r \<noteq> 0" and "expected_slot < 0xFFFFFFFF"
    and "raw = pre @ struct_pack_III bo r @ rest"
  shows "scan_steps bo raw expected_slot (length pre) =
           1 + scan_steps bo raw (expected_slot + 1) (length pre + 12)"
proof -
  have "struct_unpack_III bo (byte_slice raw (length pre) (length pre + 12)) = Inr r"
    using assms(1,4) by (simp add: slice_record struct_unpack_pack)
  then show ?thesis
    using assms(2,3) by (cases r) (simp add: scan_steps.simps [of bo raw expected_slot])
qed

lemma scan_steps_records:
  assumes "\<forall>r \<in> set rs. record_ok r \<and> fst r \<noteq> 0"
    and "expected_slot + length rs \<le> 0xFFFFFFFF"
    and "raw = pre @ index_bytes bo rs @ rest"
  shows "scan_steps bo raw expected_slot (length pre) =
           length rs + scan_steps bo raw (expected_slot + length rs) (length pre + 12 * length rs)"
  using assms
proof (induction rs arbitrary: pre expected_slot)
  case Nil
  then show ?case by simp
next
  case (Cons r rs)
  have raw: "raw = pre @ struct_pack_III bo r @ (index_bytes bo rs @ rest)"
    using Cons.prems(3) by (simp add: index_bytes_def)
  have raw': "raw = (pre @ struct_pack_III bo r) @ index_bytes bo rs @ rest"
    using raw by simp
  have "scan_steps bo raw expected_slot (length pre) =
          1 + scan_steps bo raw (expected_slot + 1) (length pre + 12)"
    using scan_steps_record [OF _ _ _ raw, of expected_slot] Cons.prems(1,2) by simp
  also have "scan_steps bo raw (expected_slot + 1) (length pre + 12) =
               length rs + scan_steps bo raw (expected_slot + 1 + length rs)
                 (length (pre @ struct_pack_III bo r) + 12 * length rs)"
    using Cons.IH [OF _ _ raw', of "expected_slot + 1"] Cons.prems(1,2) by simp
  finally show ?case by (simp add: add.assoc)
qed

lemma scan_steps_full:
  assumes ok: "\<forall>r \<in> set rs. record_ok r \<and> fst r \<noteq> 0"
    and full: "4294967294 \<le> length rs"
    and raw: "raw = magic @ index_bytes bo rs @ rest"
  shows "scan_steps bo raw 1 10 = 4294967294"
proof -
  define rs1 where "rs1 = take 4294967294 rs"
  define rs2 where "rs2 = drop 4294967294 rs"
  have len: "length rs1 = 4294967294" using full by (simp add: rs1_def)
  have rs: "rs = rs1 @ rs2" by (simp add: rs1_def rs2_def)
  have raw': "raw = magic @ index_bytes bo rs1 @ (index_bytes bo rs2 @ rest)"
    using raw rs by (simp add: index_bytes_append)
  have ok1: "\<forall>r \<in> set rs1. record_ok r \<and> fst r \<noteq> 0"
    using ok rs by auto
  have "scan_steps bo raw 1 (length magic) =
          length rs1 + scan_steps bo raw (1 + length rs1) (length magic + 12 * length rs1)"
    using ok1 len raw' by (intro scan_steps_records) auto
  also have "scan_steps bo raw (1 + length rs1) (length magic + 12 * length rs1) = 0"
    by (simp add: len scan_steps.simps [of bo raw 4294967295])
  finally show ?thesis by (simp add: len)
qed

lemma read_payload_full:
  assumes ok: "\<forall>r \<in> set rs. record_ok r \<and> fst r \<noteq> 0"
    and full: "4294967294 \<le> length rs"
    and raw: "raw = magic @ index_bytes bo rs @ rest"
  shows "read_payload bo raw =
           (case fold (store raw) (take 4294967294 rs) Map.empty 1 of
              None \<Rightarrow> Inl ValueError
            | Some contents \<Rightarrow> Inr contents)"
  using scan_index_full [OF assms] raw by (simp add: read_payload_def)

text \<open>
  Claim C7, as amended. The scan is a total function: the loop variable runs through a
  finite range, and that is its termination argument. The loop body is entered at most
  once for every 12 bytes that remain in the buffer and once more, and at most 4294967294
  times in all. On an indexed archive that shows no zero-slot record at any position
  where a record is read, and that holds fewer than 4294967294 whole records, the reader
  fails with \<^verbatim>\<open>struct.error\<close>; slices never reach beyond the buffer. On an archive
  whose first 4294967294 records all have a slot that is not zero, the loop body is
  entered 4294967294 times and the loop ends there without raising; the reader then
  returns the entry that those records leave for slot 1, or raises the \<^verbatim>\<open>ValueError\<close> of
  line 50 when none of them has slot 1.
\<close>

theorem scan_bounded:
  "scan_steps bo raw expected_slot position \<le> (length raw - position) div 12 + 1 \<and>
   scan_steps bo raw expected_slot position \<le> 0xFFFFFFFF - expected_slot \<and>
   (startswith raw magic \<longrightarrow> no_sentinel bo raw \<longrightarrow> (length raw - 10) div 12 < 4294967294 \<longrightarrow>
      read_payload bo raw = Inl StructError) \<and>
   (\<forall>rs rest. (\<forall>r \<in> set rs. record_ok r \<and> fst r \<noteq> 0) \<longrightarrow> 4294967294 \<le> length rs \<longrightarrow>
      raw = magic @ index_bytes bo rs @ rest \<longrightarrow>
      scan_steps bo raw 1 10 = 4294967294 \<and>
      scan bo raw 1 10 Map.empty = Inr (fold (store raw) (take 4294967294 rs) Map.empty) \<and>
      read_payload bo raw =
        (case fold (store raw) (take 4294967294 rs) Map.empty 1 of
           None \<Rightarrow> Inl ValueError
         | Some contents \<Rightarrow> Inr contents))"
proof (intro conjI allI impI)
  show "scan_steps bo raw expected_slot position \<le> (length raw - position) div 12 + 1"
    by (rule scan_steps_buffer)
  show "scan_steps bo raw expected_slot position \<le> 0xFFFFFFFF - expected_slot"
    by (rule scan_steps_range)
next
  assume "startswith raw magic" and "no_sentinel bo raw"
    and "(length raw - 10) div 12 < 4294967294"
  then show "read_payload bo raw = Inl StructError"
    by (rule read_payload_no_sentinel)
next
  fix rs rest
  assume ok: "\<forall>r \<in> set rs. record_ok r \<and> fst r \<noteq> 0"
    and full: "4294967294 \<le> length rs"
    and raw: "raw = magic @ index_bytes bo rs @ rest"
  show "scan_steps bo raw 1 10 = 4294967294"
    using ok full raw by (rule scan_steps_full)
  show "scan bo raw 1 10 Map.empty = Inr (fold (store raw) (take 4294967294 rs) Map.empty)"
    using ok full raw by (rule scan_index_full)
  show "read_payload bo raw =
        (case fold (store raw) (take 4294967294 rs) Map.empty 1 of
           None \<Rightarrow> Inl ValueError
         | Some contents \<Rightarrow> Inr contents)"
    using ok full raw by (rule read_payload_full)
qed

theorem scan_bounded_witness:
  "startswith (magic @ index_bytes LittleEndian [(1, 34, 5), (2, 39, 1)] @ [1, 2, 3]) magic \<and>
   (length (magic @ index_bytes LittleEndian [(1, 34, 5), (2, 39, 1)] @ [1, 2, 3]) - 10) div 12
     < 4294967294 \<and>
   scan_steps LittleEndian (magic @ index_bytes LittleEndian [(1, 34, 5), (2, 39, 1)] @ [1, 2, 3]) 1 10
     \<le> 3 \<and>
   read_payload LittleEndian (magic @ index_bytes LittleEndian [(1, 34, 5), (2, 39, 1)] @ [1, 2, 3]) =
     Inl StructError \<and>
   record_ok (2, 0, 0) \<and>
   4294967294 \<le> length (replicate 4294967294 (2 :: nat, 0 :: nat, 0 :: nat)) \<and>
   scan_steps LittleEndian
     (magic @ index_bytes LittleEndian (replicate 4294967294 (2, 0, 0)) @ []) 1 10 = 4294967294 \<and>
   read_payload LittleEndian
     (magic @ index_bytes LittleEndian (replicate 4294967294 (2, 0, 0)) @ []) = Inl ValueError"
proof -
  define raw where "raw = magic @ index_bytes LittleEndian [(1, 34, 5), (2, 39, 1)] @ [1, 2, 3]"
  have h1: "startswith raw magic"
    by (simp add: raw_def)
  have len: "length raw = 37"
    by (simp add: raw_def)
  have h2: "no_sentinel LittleEndian raw"
    unfolding no_sentinel_def
  proof (intro allI impI)
    fix k
    assume "10 + 12 * k + 12 \<le> length raw"
    then have "k = 0 \<or> k = 1" using len by auto
    then show "slot_at LittleEndian raw (10 + 12 * k) \<noteq> 0"
      by (auto simp: raw_def slot_at_def eval_archive)
  qed
  have h3: "(length raw - 10) div 12 < 4294967294"
    by (simp add: len)
  have a: "scan_steps LittleEndian raw 1 10 \<le> (length raw - 10) div 12 + 1 \<and>
        read_payload LittleEndian raw = Inl StructError"
    using scan_bounded [of LittleEndian raw 1 10] h1 h2 h3 by blast
  define big where "big = magic @ index_bytes LittleEndian (replicate 4294967294 (2, 0, 0)) @ []"
  have k1: "\<forall>r \<in> set (replicate 4294967294 (2 :: nat, 0 :: nat, 0 :: nat)). record_ok r \<and> fst r \<noteq> 0"
    by simp
  have k2: "4294967294 \<le> length (replicate 4294967294 (2 :: nat, 0 :: nat, 0 :: nat))"
    by simp
  have b: "scan_steps LittleEndian big 1 10 = 4294967294 \<and>
      read_payload LittleEndian big =
        (case fold (store big) (take 4294967294 (replicate 4294967294 (2, 0, 0))) Map.empty 1 of
           None \<Rightarrow> Inl ValueError
         | Some contents \<Rightarrow> Inr contents)"
    using scan_bounded [of LittleEndian big 1 10] k1 k2 big_def by blast
  have "fold (store big) (replicate 4294967294 (2, 0, 0)) Map.empty 1 = Map.empty 1"
    by (rule fold_store_other) simp
  moreover have "take 4294967294 (replicate 4294967294 (2 :: nat, 0 :: nat, 0 :: nat)) =
      replicate 4294967294 (2, 0, 0)"
    by simp
  ultimately have "fold (store big) (take 4294967294 (replicate 4294967294 (2, 0, 0))) Map.empty 1 = None"
    by (simp only:)
  then have c: "scan_steps LittleEndian big 1 10 = 4294967294 \<and>
      read_payload LittleEndian big = Inl ValueError"
    using b by simp
  show ?thesis
    using a c h1 h3 len unfolding raw_def [symmetric] big_def [symmetric] by simp
qed

text \<open>
  The claim as it was stated fails on an archive of exactly 4294967294 records
  \<open>(1, 0, 0)\<close> and nothing else: it has no zero-slot record, yet the loop ends with its
  range and the reader returns the payload of slot 1 instead of failing.
\<close>

theorem scan_bounded_counterexample:
  "no_sentinel LittleEndian (magic @ index_bytes LittleEndian (replicate 4294967294 (1, 0, 0))) \<and>
   read_payload LittleEndian (magic @ index_bytes LittleEndian (replicate 4294967294 (1, 0, 0))) =
     Inr []"
proof -
  define raw where "raw = magic @ index_bytes LittleEndian (replicate 4294967294 (1, 0, 0))"
  have "scan LittleEndian raw 1 10 Map.empty =
          Inr (fold (store raw) (take 4294967294 (replicate 4294967294 (1, 0, 0))) Map.empty)"
    by (rule scan_index_full [where rest = "[]"]) (auto simp: raw_def)
  moreover have "fold (store raw) (replicate 4294967294 (1, 0, 0)) Map.empty 1 = Some (byte_slice raw 0 (0 + 0))"
    by (rule fold_store_replicate) simp
  ultimately have "read_payload LittleEndian raw = Inr []"
    by (simp add: read_payload_def raw_def byte_slice_def)
  moreover have "no_sentinel LittleEndian raw"
    unfolding raw_def by (rule no_sentinel_replicate) simp_all
  ultimately show ?thesis by (simp add: raw_def)
qed

section \<open>The allow-list\<close>

lemma exec_steps:
  "OpStop \<notin> set pre \<Longrightarrow>
     exec allow (pre @ ops) st =
       (case steps allow pre st of Inl e \<Rightarrow> Inl e | Inr st' \<Rightarrow> exec allow ops st')"
proof (induction pre arbitrary: st)
  case Nil
  then show ?case by simp
next
  case (Cons opc pre)
  then have "opc \<noteq> OpStop" and "OpStop \<notin> set pre" by auto
  then show ?case
    using Cons.IH by (cases opc; cases st) (auto split: sum.splits)
qed

lemma exec_construct_unsupported:
  assumes "allow type_id = None"
  shows "exec allow (OpConstruct # post) (fields # VScalar (SStr type_id) # stack, memo) =
           Inl UnsupportedTypeError"
  using assms by simp

lemma pairs_subset: "(k, v) \<in> set (pairs xs) \<Longrightarrow> k \<in> set xs \<and> v \<in> set xs"
  by (induction xs rule: pairs.induct) auto

lemma step_types:
  assumes "step allow opc (stack, memo) = Inr (stack', memo')"
    and "\<forall>v \<in> set stack \<union> set memo. types_of v \<subseteq> dom allow"
  shows "\<forall>v \<in> set stack' \<union> set memo'. types_of v \<subseteq> dom allow"
proof -
  have st: "\<forall>v \<in> set stack. types_of v \<subseteq> dom allow"
    and me: "\<forall>v \<in> set memo. types_of v \<subseteq> dom allow"
    using assms(2) by auto
  have tk: "\<forall>v \<in> set (take n stack). types_of v \<subseteq> dom allow" for n
    using st by (auto dest: in_set_takeD)
  have dr: "\<forall>v \<in> set (drop n stack). types_of v \<subseteq> dom allow" for n
    using st by (auto dest: in_set_dropD)
  show ?thesis
  proof (cases opc)
    case (OpPush c)
    then show ?thesis using assms(1) st me by auto
  next
    case (OpBuildSeq n)
    then have "stack' = VSeq (rev (take n stack)) # drop n stack" and "memo' = memo"
      using assms(1) by (auto split: if_splits)
    then show ?thesis using tk [of n] dr [of n] me by auto
  next
    case (OpBuildMap n)
    then have s': "stack' = VMap (pairs (rev (take (2 * n) stack))) # drop (2 * n) stack"
      and "memo' = memo"
      using assms(1) by (auto split: if_splits)
    have "types_of (VMap (pairs (rev (take (2 * n) stack)))) \<subseteq> dom allow"
    proof -
      have "types_of k \<union> types_of v \<subseteq> dom allow"
        if "(k, v) \<in> set (pairs (rev (take (2 * n) stack)))" for k v
      proof -
        have "k \<in> set (take (2 * n) stack)" and "v \<in> set (take (2 * n) stack)"
          using pairs_subset [OF that] by simp_all
        then show ?thesis using tk [of "2 * n"] by blast
      qed
      then show ?thesis by fastforce
    qed
    then show ?thesis using s' \<open>memo' = memo\<close> dr [of "2 * n"] me by auto
  next
    case OpConstruct
    then obtain fields type_id rest arity vs where
      stack: "stack = fields # VScalar (SStr type_id) # rest"
      and al: "allow type_id = Some arity" and f: "fields = VSeq vs"
      and s': "stack' = VObj type_id vs # rest" and m': "memo' = memo"
      using assms(1)
      by (cases "(allow, OpConstruct, (stack, memo))" rule: step.cases)
         (auto split: option.splits pvalue.splits if_splits)
    have "types_of (VSeq vs) \<subseteq> dom allow"
      using st stack f by simp
    then have "types_of (VObj type_id vs) \<subseteq> dom allow"
      using al by auto
    moreover have "\<forall>v \<in> set rest. types_of v \<subseteq> dom allow"
      using st stack by simp
    ultimately show ?thesis using s' m' me by auto
  next
    case (OpMemoPut i)
    then obtain v rest where stack: "stack = v # rest" and s': "stack' = stack"
      and m': "memo' = memo[i := v] \<or> memo' = memo @ [v]"
      using assms(1) by (cases stack) (auto split: if_splits)
    have "types_of v \<subseteq> dom allow" using st stack by simp
    moreover have "set memo' \<subseteq> insert v (set memo)"
      using m' set_update_subset_insert [of memo i v] by auto
    ultimately have "\<forall>w \<in> set memo'. types_of w \<subseteq> dom allow"
      using me by blast
    then show ?thesis using s' st by auto
  next
    case (OpMemoGet i)
    then have "i < length memo" and "stack' = memo ! i # stack" and "memo' = memo"
      using assms(1) by (auto split: if_splits)
    then show ?thesis using st me by auto
  next
    case OpStop
    then show ?thesis using assms(1) st me by auto
  qed
qed

lemma exec_types:
  "exec allow ops st = Inr v \<Longrightarrow>
     \<forall>w \<in> set (fst st) \<union> set (snd st). types_of w \<subseteq> dom allow \<Longrightarrow>
     types_of v \<subseteq> dom allow"
proof (induction ops arbitrary: st)
  case Nil
  then show ?case by simp
next
  case (Cons opc ops)
  obtain stack memo where st: "st = (stack, memo)" by (cases st)
  show ?case
  proof (cases "opc = OpStop")
    case True
    then show ?thesis
      using Cons.prems st by (cases stack) auto
  next
    case False
    then have ex: "exec allow (opc # ops) st =
        (case step allow opc st of Inl e \<Rightarrow> Inl e | Inr st' \<Rightarrow> exec allow ops st')"
      using st by (cases opc) simp_all
    then obtain st' where s: "step allow opc st = Inr st'" and e: "exec allow ops st' = Inr v"
      using Cons.prems(1) by (auto split: sum.splits)
    obtain stack' memo' where st': "st' = (stack', memo')" by (cases st')
    have "\<forall>w \<in> set stack' \<union> set memo'. types_of w \<subseteq> dom allow"
      using step_types [of allow opc stack memo stack' memo'] s st st' Cons.prems(2) by simp
    then show ?thesis
      using Cons.IH [OF e] st' by simp
  qed
qed

lemma deserialize_types:
  assumes "deserialize allow ops = Inr (metadata, root_object)"
  shows "types_of metadata \<union> types_of root_object \<subseteq> dom allow"
proof -
  from assms have "exec allow ops ([], []) = Inr (VSeq [metadata, root_object])"
    by (auto simp: deserialize_def split: sum.splits pvalue.splits list.splits)
  then have "types_of (VSeq [metadata, root_object]) \<subseteq> dom allow"
    by (rule exec_types) simp
  then show ?thesis by simp
qed

text \<open>
  Claim C1. When the opcodes of a decompressed stream reach a construction whose type
  identifier is not in the allow-list, deserialization fails with
  \<^verbatim>\<open>UnsupportedTypeError\<close>, whatever the field values are and whatever follows in the
  stream. No object of such a type is ever built: every object inside a result that the
  deserializer returns has a type of the allow-list. The deserializer has no operation
  that runs code or looks a type up in any other way.
\<close>

theorem allow_list_enforced:
  "(decode stream = Some (pre @ OpConstruct # post) \<longrightarrow> OpStop \<notin> set pre \<longrightarrow>
      steps allow pre ([], []) = Inr (fields # VScalar (SStr type_id) # stack, memo) \<longrightarrow>
      allow type_id = None \<longrightarrow>
      pickle_safe_loads allow decode stream = Inl UnsupportedTypeError) \<and>
   (pickle_safe_loads allow decode stream = Inr (metadata, root_object) \<longrightarrow>
      types_of metadata \<union> types_of root_object \<subseteq> dom allow)"
proof (intro conjI impI)
  assume d: "decode stream = Some (pre @ OpConstruct # post)"
    and "OpStop \<notin> set pre"
    and "steps allow pre ([], []) = Inr (fields # VScalar (SStr type_id) # stack, memo)"
    and "allow type_id = None"
  then have "exec allow (pre @ OpConstruct # post) ([], []) = Inl UnsupportedTypeError"
    by (simp add: exec_steps)
  then show "pickle_safe_loads allow decode stream = Inl UnsupportedTypeError"
    using d by (simp add: pickle_safe_loads_def deserialize_def)
next
  assume "pickle_safe_loads allow decode stream = Inr (metadata, root_object)"
  then obtain ops where "deserialize allow ops = Inr (metadata, root_object)"
    by (auto simp: pickle_safe_loads_def split: option.splits)
  then show "types_of metadata \<union> types_of root_object \<subseteq> dom allow"
    by (rule deserialize_types)
qed

theorem allow_list_enforced_witness:
  "pickle_decode hostile_stream =
     Some ([OpPush SNone, OpPush (SStr ''os.system''), OpBuildSeq 0] @ OpConstruct
           # [OpBuildSeq 2, OpStop]) \<and>
   steps example_allow [OpPush SNone, OpPush (SStr ''os.system''), OpBuildSeq 0] ([], []) =
     Inr (VSeq [] # VScalar (SStr ''os.system'') # [VScalar SNone], []) \<and>
   example_allow ''os.system'' = None \<and>
   pickle_safe_loads example_allow pickle_decode hostile_stream = Inl UnsupportedTypeError \<and>
   pickle_safe_loads example_allow pickle_decode benign_stream =
     Inr (VScalar SNone, VObj ''renpy.ast.Return'' []) \<and>
   types_of (VScalar SNone) \<union> types_of (VObj ''renpy.ast.Return'' []) \<subseteq> dom example_allow"
proof -
  have h1: "pickle_decode hostile_stream =
     Some ([OpPush SNone, OpPush (SStr ''os.system''), OpBuildSeq 0] @ OpConstruct
           # [OpBuildSeq 2, OpStop])"
    by (simp add: hostile_stream_def ascii_def char_of_def bit_0)
  have h2: "OpStop \<notin> set [OpPush SNone, OpPush (SStr ''os.system''), OpBuildSeq 0]"
    by simp
  have h3: "steps example_allow [OpPush SNone, OpPush (SStr ''os.system''), OpBuildSeq 0] ([], []) =
     Inr (VSeq [] # VScalar (SStr ''os.system'') # [VScalar SNone], [])"
    by simp
  have h4: "example_allow ''os.system'' = None"
    by (simp add: example_allow_def)
  have h5: "pickle_safe_loads example_allow pickle_decode benign_stream =
     Inr (VScalar SNone, VObj ''renpy.ast.Return'' [])"
    by (simp add: benign_stream_def ascii_def char_of_def bit_0 pickle_safe_loads_def
        deserialize_def example_allow_def)
  have a: "pickle_safe_loads example_allow pickle_decode hostile_stream = Inl UnsupportedTypeError"
    using allow_list_enforced [of pickle_decode hostile_stream
        "[OpPush SNone, OpPush (SStr ''os.system''), OpBuildSeq 0]" "[OpBuildSeq 2, OpStop]"
        example_allow "VSeq []" "''os.system''" "[VScalar SNone]" "[]"] h1 h2 h3 h4
    by blast
  have b: "types_of (VScalar SNone) \<union> types_of (VObj ''renpy.ast.Return'' []) \<subseteq> dom example_allow"
    using allow_list_enforced [where decode = pickle_decode and stream = benign_stream
        and allow = example_allow and metadata = "VScalar SNone"
        and root_object = "VObj ''renpy.ast.Return'' []"] h5
    by blast
  show ?thesis
    using h1 h3 h4 h5 a b by blast
qed

end
